theory Spec2Isabelle
  imports Main "HOL-Library.Word"
begin

unbundle bit_operations_syntax

section \<open>Bytes, string literals and the output sink\<close>

type_synonym byte = "8 word"

definition bytes_of :: "string \<Rightarrow> byte list" where
  "bytes_of s = map of_char s"

text \<open>
  A C string literal is stored as its characters followed by one zero byte.
\<close>

definition literal :: "string \<Rightarrow> byte list" where
  "literal s = bytes_of s @ [0]"

text \<open>
  File descriptor 1. The program only ever calls \<open>write(1, buf, count)\<close> and compares the
  result with \<open>-1\<close>. The sink keeps a log of every call (the bytes offered and the answer
  given) and a script of the answers it will give to the calls to come; once the script is
  used up, every write is taken in full. \<open>Short n\<close> is a write that takes only the first
  \<open>n\<close> bytes and returns their number.
\<close>

datatype answer = Accepted | Rejected | Short nat

record sink =
  calls :: "(byte list \<times> answer) list"
  script :: "answer list"

definition new_sink :: "answer list \<Rightarrow> sink" where
  "new_sink sc = \<lparr>calls = [], script = sc\<rparr>"

fun taken :: "byte list \<times> answer \<Rightarrow> byte list" where
  "taken (bs, Accepted) = bs"
| "taken (bs, Rejected) = []"
| "taken (bs, Short n) = take n bs"

definition sink_bytes :: "sink \<Rightarrow> byte list" where
  "sink_bytes k = concat (map taken (calls k))"

fun write_result :: "answer \<Rightarrow> byte list \<Rightarrow> int" where
  "write_result Accepted bs = int (length bs)"
| "write_result Rejected bs = - 1"
| "write_result (Short n) bs = int (min n (length bs))"

definition write_fd :: "sink \<Rightarrow> byte list \<Rightarrow> int \<times> sink" where
  "write_fd k bs =
     (case script k of
        [] \<Rightarrow> (write_result Accepted bs, \<lparr>calls = calls k @ [(bs, Accepted)], script = []\<rparr>)
      | a # rest \<Rightarrow> (write_result a bs, \<lparr>calls = calls k @ [(bs, a)], script = rest\<rparr>))"

section \<open>find_duplicates.c\<close>

definition RESULT_BUFFER_SIZE :: nat where
  "RESULT_BUFFER_SIZE = 256"

text \<open>
  The function leaves either through a \<open>return\<close>, with its value and the sink as it then
  is, or through an access outside an array, which C leaves undefined.
\<close>

datatype exit = Return int sink | OutOfBounds

definition and_then :: "exit + 'a \<Rightarrow> ('a \<Rightarrow> exit + 'b) \<Rightarrow> exit + 'b" where
  "and_then m g = (case m of Inl e \<Rightarrow> Inl e | Inr x \<Rightarrow> g x)"

text \<open>The local variables of \<open>find_duplicates\<close>, and the sink it writes to.\<close>

record frame =
  character_tracker :: "byte list"
  result :: "byte list"
  output_idx :: "16 word"
  is_first_duplicate :: byte
  out :: sink

text \<open>\<open>result[output_idx++] = b;\<close>\<close>

definition store_result :: "byte \<Rightarrow> frame \<Rightarrow> exit + frame" where
  "store_result b f =
     (if unat (output_idx f) < length (result f)
      then Inr (f\<lparr>result := (result f)[unat (output_idx f) := b],
                  output_idx := output_idx f + 1\<rparr>)
      else Inl OutOfBounds)"

text \<open>\<open>if (write(1, result, output_idx) == -1) { return -1; }\<close>\<close>

definition write_out :: "frame \<Rightarrow> exit + frame" where
  "write_out f =
     (if unat (output_idx f) \<le> length (result f)
      then (case write_fd (out f) (take (unat (output_idx f)) (result f)) of
              (r, k) \<Rightarrow> if r = - 1 then Inl (Return (- 1) k) else Inr (f\<lparr>out := k\<rparr>))
      else Inl OutOfBounds)"

text \<open>
  \<open>if (output_idx + n >= RESULT_BUFFER_SIZE) { if (write(...) == -1) { return -1; }
  output_idx = 0; }\<close>. The sum is computed in \<open>int\<close>, so it does not wrap.
\<close>

definition make_room :: "nat \<Rightarrow> frame \<Rightarrow> exit + frame" where
  "make_room n f =
     (if unat (output_idx f) + n \<ge> RESULT_BUFFER_SIZE
      then and_then (write_out f) (\<lambda>f. Inr (f\<lparr>output_idx := 0\<rparr>))
      else Inr f)"

definition byte_index :: "byte \<Rightarrow> byte" where
  "byte_index character = drop_bit 2 character"

definition bit_position :: "byte \<Rightarrow> byte" where
  "bit_position character = character AND 3"

definition seen_mask :: "byte \<Rightarrow> byte" where
  "seen_mask character = push_bit (unat (bit_position character)) 1"

definition duplicate_mask :: "byte \<Rightarrow> byte" where
  "duplicate_mask character = push_bit 4 (seen_mask character)"

text \<open>Lines 113 to 126: the character is written to the report.\<close>

definition emit :: "byte \<Rightarrow> frame \<Rightarrow> exit + frame" where
  "emit character f =
     and_then (make_room 3 f) (\<lambda>f.
     and_then (if is_first_duplicate f = 0
               then and_then (store_result 0x2C f) (store_result 0x20)
               else Inr f) (\<lambda>f.
     and_then (store_result character f) (\<lambda>f.
     Inr (f\<lparr>is_first_duplicate := 0\<rparr>))))"

text \<open>The body of the \<open>while\<close> loop for one character (lines 84 to 129).\<close>

definition loop_body :: "frame \<Rightarrow> byte \<Rightarrow> exit + frame" where
  "loop_body f character =
     (if 32 \<le> character \<and> character \<le> 126 then
        (if \<not> unat (byte_index character) < length (character_tracker f) then Inl OutOfBounds
         else if character_tracker f ! unat (byte_index character) AND seen_mask character = 0 then
           Inr (f\<lparr>character_tracker := (character_tracker f)
                   [unat (byte_index character) :=
                      character_tracker f ! unat (byte_index character) OR seen_mask character]\<rparr>)
         else if character_tracker f ! unat (byte_index character) AND duplicate_mask character = 0 then
           emit character
             (f\<lparr>character_tracker := (character_tracker f)
                   [unat (byte_index character) :=
                      character_tracker f ! unat (byte_index character) OR duplicate_mask character]\<rparr>)
         else Inr f)
      else Inr f)"

text \<open>
  \<open>while (*str != '\0') { ...; str++; }\<close> over the bytes of memory from \<open>str\<close> on. The
  string ends at the first zero byte; the end of the list stands for that byte as well.
\<close>

fun scan :: "frame \<Rightarrow> byte list \<Rightarrow> exit + frame" where
  "scan f [] = Inr f"
| "scan f (c # cs) =
     (if c = 0 then Inr f
      else case loop_body f c of Inl e \<Rightarrow> Inl e | Inr f' \<Rightarrow> scan f' cs)"

text \<open>
  The frame at entry: the tracker is zeroed by its initialiser, \<open>result\<close> is not
  initialised and holds whatever \<open>junk\<close> the stack held.
\<close>

definition entry_frame :: "(nat \<Rightarrow> byte) \<Rightarrow> sink \<Rightarrow> frame" where
  "entry_frame junk k =
     \<lparr>character_tracker = replicate 64 0,
      result = map junk [0..<RESULT_BUFFER_SIZE],
      output_idx = 0,
      is_first_duplicate = 1,
      out = k\<rparr>"

definition diagnostic :: string where
  "diagnostic = ''Input string is null or empty'' @ [CHR 0x0A]"

text \<open>
  \<open>str\<close> is \<open>None\<close> for the null pointer and \<open>Some m\<close> for a pointer to the bytes \<open>m\<close>.
\<close>

definition find_duplicates :: "(nat \<Rightarrow> byte) \<Rightarrow> byte list option \<Rightarrow> sink \<Rightarrow> exit" where
  "find_duplicates junk str k =
     (if str = None \<or> the str = [] \<or> hd (the str) = 0 then
        (case write_fd k (take 31 (literal diagnostic)) of
           (r, k') \<Rightarrow> if r = - 1 then Return (- 1) k' else Return (- 1) k')
      else
        (case and_then (store_result 0x7B (entry_frame junk k)) (\<lambda>f.
              and_then (scan f (the str)) (\<lambda>f.
              and_then (make_room 2 f) (\<lambda>f.
              and_then (store_result 0x7D f) (\<lambda>f.
              and_then (store_result 0x0A f) (\<lambda>f.
              write_out f))))) of
           Inl e \<Rightarrow> e
         | Inr f \<Rightarrow> Return 0 (out f)))"

section \<open>main.c\<close>

text \<open>
  The driver fills a zeroed array of 512 bytes with every character from 32 to 126, each
  twice, and passes it to \<open>find_duplicates\<close>.
\<close>

fun fill :: "byte list \<Rightarrow> nat \<Rightarrow> nat list \<Rightarrow> byte list" where
  "fill str idx [] = str"
| "fill str idx (i # is) = fill (str[idx := of_nat i, Suc idx := of_nat i]) (idx + 2) is"

definition main_str :: "byte list" where
  "main_str = fill (replicate 512 0) 0 [32..<127]"

section \<open>What the specification says is written\<close>

definition printable :: "byte \<Rightarrow> bool" where
  "printable c \<longleftrightarrow> 32 \<le> c \<and> c \<le> 126"

text \<open>The characters of the C string that starts the memory \<open>m\<close>.\<close>

definition cstring :: "byte list \<Rightarrow> byte list" where
  "cstring m = takeWhile (\<lambda>b. b \<noteq> 0) m"

text \<open>
  The printable characters found at the positions of the input where a character occurs
  for the second time, in the order of those positions.
\<close>

definition second_occurrences :: "byte list \<Rightarrow> byte list" where
  "second_occurrences s =
     map (\<lambda>i. s ! i)
       (filter (\<lambda>i. printable (s ! i) \<and> count_list (take i s) (s ! i) = 1) [0..<length s])"

text \<open>The entries separated by a comma and a space, between braces, and a newline.\<close>

fun joined :: "byte list \<Rightarrow> byte list" where
  "joined [] = []"
| "joined [d] = [d]"
| "joined (d # e # ds) = d # 0x2C # 0x20 # joined (e # ds)"

definition report :: "byte list \<Rightarrow> byte list" where
  "report ds = 0x7B # joined ds @ [0x7D, 0x0A]"

section \<open>The writes a list of entries is cut into\<close>

text \<open>
  The buffer discipline on its own, over the entries to report: the writes already
  requested, the bytes waiting in the buffer, and whether no entry has been added yet.
\<close>

fun room :: "nat \<Rightarrow> byte list list \<times> byte list \<Rightarrow> byte list list \<times> byte list" where
  "room n (ws, buf) =
     (if length buf + n \<ge> RESULT_BUFFER_SIZE then (ws @ [buf], []) else (ws, buf))"

fun add_entry :: "bool \<times> byte list list \<times> byte list \<Rightarrow> byte
    \<Rightarrow> bool \<times> byte list list \<times> byte list" where
  "add_entry (first, wb) d =
     (case room 3 wb of
        (ws, buf) \<Rightarrow> (False, ws, buf @ (if first then [] else [0x2C, 0x20]) @ [d]))"

definition buffered :: "byte list \<Rightarrow> bool \<times> byte list list \<times> byte list" where
  "buffered ds = foldl add_entry (True, [], [0x7B]) ds"

definition chunks :: "byte list \<Rightarrow> byte list list" where
  "chunks ds =
     (case room 2 (snd (buffered ds)) of (ws, buf) \<Rightarrow> ws @ [buf @ [0x7D, 0x0A]])"

text \<open>Offering a list of writes to a sink, in order, up to the first one it rejects.\<close>

fun deliver :: "sink \<Rightarrow> byte list list \<Rightarrow> exit + sink" where
  "deliver k [] = Inr k"
| "deliver k (w # ws) =
     (case write_fd k w of
        (r, k') \<Rightarrow> if r = - 1 then Inl (Return (- 1) k') else deliver k' ws)"

text \<open>What the tracker holds once the characters \<open>p\<close> have been scanned.\<close>

definition tracks :: "byte list \<Rightarrow> byte list \<Rightarrow> bool" where
  "tracks t p \<longleftrightarrow>
     length t = 64 \<and>
     (\<forall>c. printable c \<longrightarrow>
        (bit (t ! (unat c div 4)) (unat c mod 4) \<longleftrightarrow> c \<in> set p) \<and>
        (bit (t ! (unat c div 4)) (unat c mod 4 + 4) \<longleftrightarrow> 2 \<le> count_list p c))"

text \<open>The first bytes of \<open>result\<close>, up to \<open>output_idx\<close>, are \<open>buf\<close>.\<close>

definition buffer_holds :: "frame \<Rightarrow> byte list \<Rightarrow> bool" where
  "buffer_holds f buf \<longleftrightarrow>
     length (result f) = RESULT_BUFFER_SIZE \<and>
     unat (output_idx f) = length buf \<and>
     take (length buf) (result f) = buf"

text \<open>
  The frame at the head of the loop once the characters \<open>p\<close> have been scanned, all
  writes so far having gone through, starting from the sink \<open>k0\<close>.
\<close>

definition scanned :: "sink \<Rightarrow> byte list \<Rightarrow> frame \<Rightarrow> bool" where
  "scanned k0 p f \<longleftrightarrow>
     tracks (character_tracker f) p \<and>
     (case buffered (second_occurrences p) of
        (first, ws, buf) \<Rightarrow>
          is_first_duplicate f = (if first then 1 else 0) \<and>
          buffer_holds f buf \<and>
          deliver k0 ws = Inr (out f))"

text \<open>The writes the function asks for, and the value it returns when none is rejected.\<close>

definition valid_input :: "byte list option \<Rightarrow> bool" where
  "valid_input str \<longleftrightarrow> str \<noteq> None \<and> cstring (the str) \<noteq> []"

definition requests :: "byte list option \<Rightarrow> byte list list" where
  "requests str =
     (if valid_input str then chunks (second_occurrences (cstring (the str)))
      else [take 31 (literal diagnostic)])"

definition status :: "byte list option \<Rightarrow> int" where
  "status str = (if valid_input str then 0 else - 1)"

section \<open>Inputs used below\<close>

definition zeroed :: "nat \<Rightarrow> byte" where
  "zeroed i = 0"

text \<open>The characters from 32 to 126 in ascending order, and the same with each twice.\<close>

definition alphabet :: "byte list" where
  "alphabet = map of_nat [32..<127]"

definition all_doubled :: "byte list" where
  "all_doubled = concat (map (\<lambda>c. [c, c]) alphabet)"

section \<open>The nibbles of a tracker byte\<close>

definition nibbles_ok :: "byte \<Rightarrow> bool" where
  "nibbles_ok b \<longleftrightarrow> drop_bit 4 b AND (b AND 0x0F) = drop_bit 4 b"

text \<open>The frames with which the head of the \<open>while\<close> loop is reached.\<close>

inductive loop_head :: "(nat \<Rightarrow> byte) \<Rightarrow> sink \<Rightarrow> frame \<Rightarrow> bool" for junk k where
  enter: "store_result 0x7B (entry_frame junk k) = Inr f \<Longrightarrow> loop_head junk k f"
| iterate: "loop_head junk k f \<Longrightarrow> c \<noteq> 0 \<Longrightarrow> loop_body f c = Inr g \<Longrightarrow> loop_head junk k g"

definition tracker_ok :: "byte list \<Rightarrow> bool" where
  "tracker_ok t \<longleftrightarrow> length t = 64 \<and> (\<forall>b\<in>set t. nibbles_ok b)"

section \<open>Frames and stack contents used as examples\<close>

definition stale :: "nat \<Rightarrow> byte" where
  "stale i = of_nat i"

definition frame0 :: frame where
  "frame0 = projr (store_result 0x7B (entry_frame zeroed (new_sink [])))"

definition frame_aa :: frame where
  "frame_aa = projr (scan frame0 [0x61, 0x61])"

definition frame_full :: frame where
  "frame_full = frame0\<lparr>output_idx := 254\<rparr>"

definition frame_flushed :: frame where
  "frame_flushed = projr (make_room 3 frame_full)"

section \<open>The tracker bits\<close>

lemma unat_byte_index: "unat (byte_index c) = unat c div 4"
  by (simp add: byte_index_def drop_bit_eq_div unat_div)

lemma unat_bit_position: "unat (bit_position c) = unat c mod 4"
proof -
  have "bit_position c = take_bit 2 c" by (simp add: bit_position_def take_bit_eq_mask mask_eq_exp_minus_1)
  then show ?thesis by (simp add: take_bit_eq_mod unat_mod)
qed

lemma same_slot: "unat c div 4 = unat c' div 4 \<Longrightarrow> unat c mod 4 = unat c' mod 4 \<Longrightarrow> c = c'"
  for c c' :: byte
  by (metis div_mult_mod_eq word_unat_eq_iff)

lemma byte_index_bound: "unat (byte_index c) < 64"
proof -
  have "unat c < 256" using unsigned_less [of c] by simp
  then show ?thesis by (simp add: unat_byte_index)
qed

lemma byte_index_printable: "32 \<le> c \<Longrightarrow> c \<le> 126 \<Longrightarrow> 8 \<le> unat (byte_index c) \<and> unat (byte_index c) \<le> 31"
  by (simp add: unat_byte_index word_le_nat_alt) arith

lemma seen_mask_exp: "seen_mask c = 2 ^ (unat c mod 4)"
  by (simp add: seen_mask_def unat_bit_position)

lemma duplicate_mask_exp: "duplicate_mask c = 2 ^ (unat c mod 4 + 4)"
  by (simp add: duplicate_mask_def seen_mask_exp push_bit_eq_mult power_add mult.commute)

lemma and_seen_mask: "(x AND seen_mask c = 0) = (\<not> bit x (unat c mod 4))"
  by (simp add: seen_mask_exp and_exp_eq_0_iff_not_bit)

lemma and_duplicate_mask: "(x AND duplicate_mask c = 0) = (\<not> bit x (unat c mod 4 + 4))"
  by (simp add: duplicate_mask_exp and_exp_eq_0_iff_not_bit)

lemma bit_or_seen_mask: "bit (x OR seen_mask c) n = (bit x n \<or> n = unat c mod 4)"
  for x :: byte
  by (auto simp add: seen_mask_exp bit_or_iff bit_exp_iff)

lemma bit_or_duplicate_mask: "bit (x OR duplicate_mask c) n = (bit x n \<or> n = unat c mod 4 + 4)"
  for x :: byte
  by (auto simp add: duplicate_mask_exp bit_or_iff bit_exp_iff)

lemma joined_snoc: "joined (ds @ [d]) = (if ds = [] then [d] else joined ds @ [0x2C, 0x20, d])"
  by (induction ds rule: joined.induct) auto

lemma second_occurrences_snoc:
  "second_occurrences (p @ [c]) =
     second_occurrences p @ (if printable c \<and> count_list p c = 1 then [c] else [])"
proof -
  have "filter (\<lambda>i. printable ((p @ [c]) ! i) \<and> count_list (take i (p @ [c])) ((p @ [c]) ! i) = 1) [0..<length p]
      = filter (\<lambda>i. printable (p ! i) \<and> count_list (take i p) (p ! i) = 1) [0..<length p]"
    by (rule filter_cong) (auto simp: nth_append)
  moreover have "map (\<lambda>i. (p @ [c]) ! i) (filter P [0..<length p]) = map (\<lambda>i. p ! i) (filter P [0..<length p])" for P
    by (rule map_cong) (auto simp: nth_append)
  ultimately show ?thesis
    by (simp add: second_occurrences_def)
qed

lemma second_occurrences_append:
  "\<exists>es. second_occurrences (p @ q) = second_occurrences p @ es"
proof (induction q rule: rev_induct)
  case Nil
  then show ?case by simp
next
  case (snoc c q)
  then obtain es where "second_occurrences (p @ q) = second_occurrences p @ es" by blast
  then show ?case
    using second_occurrences_snoc [of "p @ q" c] by simp
qed

lemma deliver_append:
  "deliver k (ws @ vs) = (case deliver k ws of Inl e \<Rightarrow> Inl e | Inr k' \<Rightarrow> deliver k' vs)"
  by (induction ws arbitrary: k) (auto split: prod.splits)

lemma buffered_Nil: "buffered [] = (True, [], [0x7B])"
  by (simp add: buffered_def)

lemma buffered_snoc: "buffered (ds @ [d]) = add_entry (buffered ds) d"
  by (simp add: buffered_def)

lemma buffered_facts:
  "buffered ds = (first, ws, buf) \<Longrightarrow>
     first = (ds = []) \<and> concat ws @ buf = 0x7B # joined ds \<and> 1 \<le> length buf \<and> length buf \<le> 255"
proof (induction ds arbitrary: first ws buf rule: rev_induct)
  case Nil
  then show ?case by (auto simp: buffered_Nil)
next
  case (snoc d ds)
  obtain first0 ws0 buf0 where b: "buffered ds = (first0, ws0, buf0)"
    by (cases "buffered ds") auto
  note ih = snoc.IH [OF b]
  from snoc.prems show ?case
    using ih by (auto simp: buffered_snoc b joined_snoc RESULT_BUFFER_SIZE_def split: if_splits)
qed

lemma buffered_prefix:
  "\<exists>vs. fst (snd (buffered (ds @ es))) = fst (snd (buffered ds)) @ vs"
proof (induction es rule: rev_induct)
  case Nil
  then show ?case by simp
next
  case (snoc e es)
  then obtain vs where v: "fst (snd (buffered (ds @ es))) = fst (snd (buffered ds)) @ vs" by blast
  obtain first0 ws0 buf0 where b: "buffered (ds @ es) = (first0, ws0, buf0)"
    by (cases "buffered (ds @ es)") auto
  show ?case
    using v buffered_snoc [of "ds @ es" e] by (auto simp: b split: if_splits)
qed

lemma chunks_prefix: "\<exists>vs. chunks ds = fst (snd (buffered ds)) @ vs"
  by (cases "buffered ds") (auto simp: chunks_def)

lemma concat_chunks: "concat (chunks ds) = report ds"
proof -
  obtain first ws buf where b: "buffered ds = (first, ws, buf)"
    by (cases "buffered ds") auto
  from buffered_facts [OF b] show ?thesis
    by (auto simp: chunks_def b report_def)
qed

lemma unat_succ16: "unat x < 256 \<Longrightarrow> unat (x + 1) = unat x + 1" for x :: "16 word"
  by (simp add: unat_word_ariths)

lemma store_holds:
  assumes "buffer_holds f buf" and "length buf \<le> 255"
  shows "\<exists>g. store_result b f = Inr g \<and> buffer_holds g (buf @ [b]) \<and>
           character_tracker g = character_tracker f \<and>
           is_first_duplicate g = is_first_duplicate f \<and> out g = out f"
proof -
  from assms have n: "unat (output_idx f) = length buf" "length buf < length (result f)"
    and t: "take (length buf) (result f) = buf" and l: "length (result f) = 256"
    by (auto simp: buffer_holds_def RESULT_BUFFER_SIZE_def)
  let ?g = "f\<lparr>result := (result f)[length buf := b], output_idx := output_idx f + 1\<rparr>"
  have "store_result b f = Inr ?g"
    using n by (simp add: store_result_def)
  moreover have "take (Suc (length buf)) ((result f)[length buf := b]) = buf @ [b]"
    using n t by (simp add: take_Suc_conv_app_nth)
  then have "buffer_holds ?g (buf @ [b])"
    using n l assms(2) by (simp add: buffer_holds_def RESULT_BUFFER_SIZE_def unat_succ16)
  ultimately show ?thesis by simp
qed

lemma make_room_holds:
  assumes "buffer_holds f buf" and "length buf \<le> 255" and "deliver k0 ws = Inr (out f)"
  shows "case make_room n f of
           Inl e \<Rightarrow> deliver k0 (fst (room n (ws, buf))) = Inl e
         | Inr g \<Rightarrow> buffer_holds g (snd (room n (ws, buf))) \<and>
                    deliver k0 (fst (room n (ws, buf))) = Inr (out g) \<and>
                    character_tracker g = character_tracker f \<and>
                    is_first_duplicate g = is_first_duplicate f"
  using assms
  by (auto simp: make_room_def write_out_def and_then_def buffer_holds_def deliver_append
      RESULT_BUFFER_SIZE_def
      split: prod.splits sum.splits if_splits)

lemma room_length: "length (snd (room 3 (ws, buf))) \<le> 252"
  by (simp add: RESULT_BUFFER_SIZE_def)

lemma room2_length: "length (snd (room 2 (ws, buf))) \<le> 253"
  by (simp add: RESULT_BUFFER_SIZE_def)

lemma emit_holds:
  assumes h: "buffer_holds f buf" and l: "length buf \<le> 255"
    and d: "deliver k0 ws = Inr (out f)"
    and i: "is_first_duplicate f = (if first then 1 else 0)"
  shows "case emit c f of
           Inl e \<Rightarrow> deliver k0 (fst (snd (add_entry (first, ws, buf) c))) = Inl e
         | Inr g \<Rightarrow>
             (case add_entry (first, ws, buf) c of
                (first', ws', buf') \<Rightarrow>
                   is_first_duplicate g = (if first' then 1 else 0) \<and>
                   buffer_holds g buf' \<and> deliver k0 ws' = Inr (out g)) \<and>
             character_tracker g = character_tracker f"
proof (cases "make_room 3 f")
  case (Inl e)
  obtain ws0 buf0 where r: "room 3 (ws, buf) = (ws0, buf0)"
    by (cases "room 3 (ws, buf)") auto
  from make_room_holds [OF h l d, of 3] Inl r have "deliver k0 ws0 = Inl e"
    by simp
  with Inl r show ?thesis
    by (simp add: emit_def and_then_def)
next
  case (Inr g0)
  obtain ws0 buf0 where r: "room 3 (ws, buf) = (ws0, buf0)"
    by (cases "room 3 (ws, buf)") auto
  from room_length [of ws buf] r have l0: "length buf0 \<le> 252" by simp
  from make_room_holds [OF h l d, of 3] Inr r
  have g0: "buffer_holds g0 buf0" "deliver k0 ws0 = Inr (out g0)"
    "character_tracker g0 = character_tracker f" "is_first_duplicate g0 = is_first_duplicate f"
    by simp_all
  show ?thesis
  proof (cases first)
    case True
    from store_holds [OF g0(1), of c] l0 obtain g1 where
      "store_result c g0 = Inr g1" "buffer_holds g1 (buf0 @ [c])"
      "character_tracker g1 = character_tracker g0" "out g1 = out g0"
      by auto
    with True Inr r g0 i show ?thesis
      by (simp add: emit_def and_then_def buffer_holds_def)
  next
    case False
    from store_holds [OF g0(1), of "0x2C"] l0 obtain g1 where g1:
      "store_result 0x2C g0 = Inr g1" "buffer_holds g1 (buf0 @ [0x2C])"
      "character_tracker g1 = character_tracker g0" "out g1 = out g0"
      by auto
    from store_holds [OF g1(2), of "0x20"] l0 obtain g2 where g2:
      "store_result 0x20 g1 = Inr g2" "buffer_holds g2 ((buf0 @ [0x2C]) @ [0x20])"
      "character_tracker g2 = character_tracker g1" "out g2 = out g1"
      by auto
    from store_holds [OF g2(2), of c] l0 obtain g3 where g3:
      "store_result c g2 = Inr g3" "buffer_holds g3 (((buf0 @ [0x2C]) @ [0x20]) @ [c])"
      "character_tracker g3 = character_tracker g2" "out g3 = out g2"
      by auto
    with False Inr r g0 g1 g2 i show ?thesis
      by (simp add: emit_def and_then_def buffer_holds_def)
  qed
qed

lemma finish_holds:
  assumes h: "buffer_holds g buf" and l: "length buf \<le> 255"
    and d: "deliver k0 ws = Inr (out g)"
  shows "(case and_then (make_room 2 g) (\<lambda>f.
               and_then (store_result 0x7D f) (\<lambda>f.
               and_then (store_result 0x0A f) write_out)) of
            Inl e \<Rightarrow> e | Inr f \<Rightarrow> Return 0 (out f))
       = (case deliver k0 (case room 2 (ws, buf) of (ws', buf') \<Rightarrow> ws' @ [buf' @ [0x7D, 0x0A]]) of
            Inl e \<Rightarrow> e | Inr k' \<Rightarrow> Return 0 k')"
proof (cases "make_room 2 g")
  case (Inl e)
  obtain ws0 buf0 where r: "room 2 (ws, buf) = (ws0, buf0)"
    by (cases "room 2 (ws, buf)") auto
  from make_room_holds [OF h l d, of 2] Inl r have "deliver k0 ws0 = Inl e"
    by simp
  with Inl r show ?thesis
    by (simp add: and_then_def deliver_append)
next
  case (Inr g0)
  obtain ws0 buf0 where r: "room 2 (ws, buf) = (ws0, buf0)"
    by (cases "room 2 (ws, buf)") auto
  from room2_length [of ws buf] r have l0: "length buf0 \<le> 253" by simp
  from make_room_holds [OF h l d, of 2] Inr r
  have g0: "buffer_holds g0 buf0" "deliver k0 ws0 = Inr (out g0)"
    by simp_all
  from store_holds [OF g0(1), of "0x7D"] l0 obtain g1 where g1:
    "store_result 0x7D g0 = Inr g1" "buffer_holds g1 (buf0 @ [0x7D])" "out g1 = out g0"
    by auto
  from store_holds [OF g1(2), of "0x0A"] l0 obtain g2 where g2:
    "store_result 0x0A g1 = Inr g2" "buffer_holds g2 ((buf0 @ [0x7D]) @ [0x0A])" "out g2 = out g1"
    by auto
  have "write_out g2 =
      (case write_fd (out g0) (buf0 @ [0x7D, 0x0A]) of
         (r, k) \<Rightarrow> if r = - 1 then Inl (Return (- 1) k) else Inr (g2\<lparr>out := k\<rparr>))"
    using g2 g1(3) l0 by (simp add: write_out_def buffer_holds_def RESULT_BUFFER_SIZE_def)
  with Inr r g0 g1 g2 show ?thesis
    by (simp add: and_then_def deliver_append split: prod.splits)
qed

lemma slot_bound: "unat c div 4 < 64" for c :: byte
  using byte_index_bound [of c] by (simp add: unat_byte_index)

lemma count_list_snoc: "count_list (p @ [c]) x = count_list p x + (if x = c then 1 else 0)"
  by simp

lemma tracks_skip: "tracks t p \<Longrightarrow> \<not> printable c \<Longrightarrow> tracks t (p @ [c])"
  by (auto simp: tracks_def)

lemma tracks_more: "tracks t p \<Longrightarrow> 2 \<le> count_list p c \<Longrightarrow> tracks t (p @ [c])"
  by (auto simp: tracks_def)

lemma tracks_first:
  assumes "tracks t p" and "printable c" and "c \<notin> set p"
  shows "tracks (t[unat c div 4 := t ! (unat c div 4) OR seen_mask c]) (p @ [c])"
  unfolding tracks_def
proof (intro conjI allI impI)
  show "length (t[unat c div 4 := t ! (unat c div 4) OR seen_mask c]) = 64"
    using assms by (simp add: tracks_def)
next
  fix x assume "printable x"
  with assms show "bit (t[unat c div 4 := t ! (unat c div 4) OR seen_mask c] ! (unat x div 4)) (unat x mod 4) = (x \<in> set (p @ [c]))"
    using slot_bound [of c] same_slot [of x c]
    by (auto simp: tracks_def nth_list_update bit_or_seen_mask)
next
  fix x assume "printable x"
  with assms show "bit (t[unat c div 4 := t ! (unat c div 4) OR seen_mask c] ! (unat x div 4)) (unat x mod 4 + 4) = (2 \<le> count_list (p @ [c]) x)"
    using slot_bound [of c]
    by (auto simp: tracks_def nth_list_update bit_or_seen_mask)
qed

lemma tracks_second:
  assumes "tracks t p" and "printable c" and "count_list p c = 1"
  shows "tracks (t[unat c div 4 := t ! (unat c div 4) OR duplicate_mask c]) (p @ [c])"
  unfolding tracks_def
proof (intro conjI allI impI)
  show "length (t[unat c div 4 := t ! (unat c div 4) OR duplicate_mask c]) = 64"
    using assms by (simp add: tracks_def)
next
  fix x assume "printable x"
  moreover from assms(3) have "c \<in> set p" by (metis count_notin zero_neq_one)
  ultimately show "bit (t[unat c div 4 := t ! (unat c div 4) OR duplicate_mask c] ! (unat x div 4)) (unat x mod 4) = (x \<in> set (p @ [c]))"
    using slot_bound [of c] assms
    by (auto simp: tracks_def nth_list_update bit_or_duplicate_mask)
next
  fix x assume "printable x"
  with assms show "bit (t[unat c div 4 := t ! (unat c div 4) OR duplicate_mask c] ! (unat x div 4)) (unat x mod 4 + 4) = (2 \<le> count_list (p @ [c]) x)"
    using slot_bound [of c] same_slot [of x c]
    by (auto simp: tracks_def nth_list_update bit_or_duplicate_mask)
qed

lemma loop_body_scanned:
  assumes s: "scanned k0 p f"
  shows "case loop_body f c of
           Inl e \<Rightarrow> deliver k0 (fst (snd (buffered (second_occurrences (p @ [c]))))) = Inl e
         | Inr g \<Rightarrow> scanned k0 (p @ [c]) g"
proof -
  obtain first ws buf where b: "buffered (second_occurrences p) = (first, ws, buf)"
    by (cases "buffered (second_occurrences p)") auto
  from s b have t: "tracks (character_tracker f) p"
    and i: "is_first_duplicate f = (if first then 1 else 0)"
    and h: "buffer_holds f buf" and d: "deliver k0 ws = Inr (out f)"
    by (simp_all add: scanned_def)
  from buffered_facts [OF b] have l: "length buf \<le> 255" by simp
  let ?t = "character_tracker f"
  let ?i = "unat c div 4"
  show ?thesis
  proof (cases "printable c")
    case False
    then have "loop_body f c = Inr f"
      by (auto simp: loop_body_def printable_def)
    moreover have "scanned k0 (p @ [c]) f"
      using s False by (simp add: scanned_def tracks_skip second_occurrences_snoc)
    ultimately show ?thesis by simp
  next
    case True
    then have r: "32 \<le> c \<and> c \<le> 126" by (simp add: printable_def)
    have ib: "unat (byte_index c) < length ?t"
      using t byte_index_bound [of c] by (simp add: tracks_def)
    from t True have seen: "bit (?t ! ?i) (unat c mod 4) = (c \<in> set p)"
      and dup: "bit (?t ! ?i) (unat c mod 4 + 4) = (2 \<le> count_list p c)"
      by (simp_all add: tracks_def)
    have "count_list p c = 0 \<or> count_list p c = 1 \<or> 2 \<le> count_list p c" by arith
    then consider (first) "c \<notin> set p" | (second) "count_list p c = 1" | (more) "2 \<le> count_list p c"
      by (auto simp: count_list_0_iff)
    then show ?thesis
    proof cases
      case first
      then have "loop_body f c = Inr (f\<lparr>character_tracker := ?t[?i := ?t ! ?i OR seen_mask c]\<rparr>)"
        using r ib seen by (simp add: loop_body_def unat_byte_index and_seen_mask)
      moreover have "scanned k0 (p @ [c])
          (f\<lparr>character_tracker := ?t[?i := ?t ! ?i OR seen_mask c]\<rparr>)"
        using first tracks_first [OF t True first] b i h d
        by (simp add: scanned_def second_occurrences_snoc buffer_holds_def)
      ultimately show ?thesis by simp
    next
      case second
      then have in_p: "c \<in> set p" by (metis count_notin zero_neq_one)
      let ?f = "f\<lparr>character_tracker := ?t[?i := ?t ! ?i OR duplicate_mask c]\<rparr>"
      have lb: "loop_body f c = emit c ?f"
        using r ib seen dup in_p second
        by (simp add: loop_body_def unat_byte_index and_seen_mask and_duplicate_mask)
      have h': "buffer_holds ?f buf" using h by (simp add: buffer_holds_def)
      have d': "deliver k0 ws = Inr (out ?f)" using d by simp
      have i': "is_first_duplicate ?f = (if first then 1 else 0)" using i by simp
      have so: "second_occurrences (p @ [c]) = second_occurrences p @ [c]"
        using True second by (simp add: second_occurrences_snoc)
      have bs: "buffered (second_occurrences (p @ [c])) = add_entry (first, ws, buf) c"
        by (simp only: so buffered_snoc b)
      obtain first' ws' buf' where a: "add_entry (first, ws, buf) c = (first', ws', buf')"
        by (cases "add_entry (first, ws, buf) c") auto
      note eh = emit_holds [OF h' l d' i', of c, unfolded a]
      have bs': "buffered (second_occurrences (p @ [c])) = (first', ws', buf')"
        by (simp only: bs a)
      show ?thesis
      proof (cases "emit c ?f")
        case (Inl e)
        with eh show ?thesis by (simp add: lb bs')
      next
        case (Inr g)
        with eh tracks_second [OF t True second] show ?thesis
          by (simp add: lb bs' scanned_def)
      qed
    next
      case more
      then have in_p: "c \<in> set p" by (metis count_notin not_numeral_le_zero)
      have "loop_body f c = Inr f"
        using r ib seen dup in_p more
        by (simp add: loop_body_def unat_byte_index and_seen_mask and_duplicate_mask)
      moreover have "scanned k0 (p @ [c]) f"
        using s more tracks_more [OF t more] by (simp add: scanned_def second_occurrences_snoc)
      ultimately show ?thesis by simp
    qed
  qed
qed

lemma deliver_more: "deliver k ws = Inl e \<Longrightarrow> deliver k (ws @ vs) = Inl e"
  by (simp add: deliver_append)

lemma scan_scanned:
  "scanned k0 p f \<Longrightarrow> 0 \<notin> set cs \<Longrightarrow>
     (case scan f cs of
        Inl e \<Rightarrow> deliver k0 (fst (snd (buffered (second_occurrences (p @ cs))))) = Inl e
      | Inr g \<Rightarrow> scanned k0 (p @ cs) g)"
proof (induction cs arbitrary: p f)
  case Nil
  then show ?case by simp
next
  case (Cons c cs)
  from Cons.prems have c: "c \<noteq> 0" and cs: "0 \<notin> set cs" by auto
  show ?case
  proof (cases "loop_body f c")
    case (Inl e)
    with loop_body_scanned [OF Cons.prems(1), of c]
    have d: "deliver k0 (fst (snd (buffered (second_occurrences (p @ [c]))))) = Inl e" by simp
    obtain es where "second_occurrences ((p @ [c]) @ cs) = second_occurrences (p @ [c]) @ es"
      using second_occurrences_append by blast
    moreover obtain vs where "fst (snd (buffered (second_occurrences (p @ [c]) @ es)))
        = fst (snd (buffered (second_occurrences (p @ [c])))) @ vs"
      using buffered_prefix by blast
    ultimately have "deliver k0 (fst (snd (buffered (second_occurrences (p @ c # cs))))) = Inl e"
      using deliver_more [OF d] by simp
    with Inl c show ?thesis by simp
  next
    case (Inr g)
    with loop_body_scanned [OF Cons.prems(1), of c] have "scanned k0 (p @ [c]) g" by simp
    from Cons.IH [OF this cs, unfolded append_assoc append.simps] Inr c show ?thesis by simp
  qed
qed

lemma scan_cstring: "scan f m = scan f (cstring m)"
  by (induction m arbitrary: f) (auto simp: cstring_def split: sum.splits)

lemma cstring_no_zero: "0 \<notin> set (cstring m)"
  by (auto simp: cstring_def dest: set_takeWhileD)

lemma entry_scanned:
  "\<exists>f. store_result 0x7B (entry_frame junk k) = Inr f \<and> scanned k [] f"
  using slot_bound
  by (simp add: store_result_def entry_frame_def scanned_def tracks_def buffered_Nil
      buffer_holds_def second_occurrences_def RESULT_BUFFER_SIZE_def take_Suc_conv_app_nth)

lemma find_duplicates_chunks:
  assumes "cstring m \<noteq> []"
  shows "find_duplicates junk (Some m) k =
           (case deliver k (chunks (second_occurrences (cstring m))) of
              Inl e \<Rightarrow> e | Inr k' \<Rightarrow> Return 0 k')"
proof -
  from assms have ne: "m \<noteq> [] \<and> hd m \<noteq> 0"
    by (cases m) (auto simp: cstring_def)
  obtain f where f: "store_result 0x7B (entry_frame junk k) = Inr f" "scanned k [] f"
    using entry_scanned by blast
  let ?ds = "second_occurrences (cstring m)"
  show ?thesis
  proof (cases "scan f (cstring m)")
    case (Inl e)
    with scan_scanned [OF f(2) cstring_no_zero, of m]
    have "deliver k (fst (snd (buffered ?ds))) = Inl e" by simp
    moreover obtain vs where "chunks ?ds = fst (snd (buffered ?ds)) @ vs"
      using chunks_prefix by blast
    ultimately have "deliver k (chunks ?ds) = Inl e"
      by (simp add: deliver_more)
    with Inl f ne show ?thesis
      by (simp add: find_duplicates_def and_then_def scan_cstring [of f m])
  next
    case (Inr g)
    with scan_scanned [OF f(2) cstring_no_zero, of m] have g: "scanned k (cstring m) g" by simp
    obtain first ws buf where b: "buffered ?ds = (first, ws, buf)"
      by (cases "buffered ?ds") auto
    from g b have h: "buffer_holds g buf" and d: "deliver k ws = Inr (out g)"
      by (simp_all add: scanned_def)
    from buffered_facts [OF b] have l: "length buf \<le> 255" by simp
    from finish_holds [OF h l d] Inr f ne show ?thesis
      by (simp add: find_duplicates_def and_then_def scan_cstring [of f m] chunks_def b)
  qed
qed

section \<open>The function as the writes it requests\<close>

lemma cstring_empty: "cstring m = [] \<longleftrightarrow> m = [] \<or> hd m = 0"
  by (cases m) (auto simp: cstring_def)

lemma find_duplicates_invalid:
  assumes "\<not> valid_input str"
  shows "find_duplicates junk str k = Return (- 1) (snd (write_fd k (take 31 (literal diagnostic))))"
proof -
  from assms have "str = None \<or> the str = [] \<or> hd (the str) = 0"
    by (auto simp: valid_input_def cstring_empty)
  then have "find_duplicates junk str k =
      (case write_fd k (take 31 (literal diagnostic)) of
         (r, k') \<Rightarrow> if r = - 1 then Return (- 1) k' else Return (- 1) k')"
    unfolding find_duplicates_def by (rule if_P)
  then show ?thesis by (simp only: if_cancel split: prod.splits) simp
qed

lemma find_duplicates_requests:
  "find_duplicates junk str k =
     (case deliver k (requests str) of Inl e \<Rightarrow> e | Inr k' \<Rightarrow> Return (status str) k')"
proof (cases "valid_input str")
  case True
  then obtain m where "str = Some m" "cstring m \<noteq> []"
    by (auto simp: valid_input_def)
  then have "requests str = chunks (second_occurrences (cstring m))" and "status str = 0"
    by (simp_all add: requests_def status_def valid_input_def)
  moreover from \<open>cstring m \<noteq> []\<close> have "find_duplicates junk (Some m) k =
      (case deliver k (chunks (second_occurrences (cstring m))) of
         Inl e \<Rightarrow> e | Inr k' \<Rightarrow> Return 0 k')"
    by (rule find_duplicates_chunks)
  ultimately show ?thesis
    using \<open>str = Some m\<close> by (simp only:)
next
  case False
  then have "requests str = [take 31 (literal diagnostic)]" and "status str = - 1"
    by (simp_all add: requests_def status_def)
  moreover have "(case deliver k [w] of Inl e \<Rightarrow> e | Inr k' \<Rightarrow> Return (- 1) k')
      = Return (- 1) (snd (write_fd k w))" for w
    by (simp split: prod.splits)
  ultimately show ?thesis
    using find_duplicates_invalid [OF False, of junk k] by (simp only:)
qed

lemma deliver_accepting:
  "script k = [] \<Longrightarrow>
     deliver k ws = Inr \<lparr>calls = calls k @ map (\<lambda>w. (w, Accepted)) ws, script = []\<rparr>"
  by (induction ws arbitrary: k) (auto simp: write_fd_def)

lemma deliver_rejected:
  "script k = pre @ Rejected # rest \<Longrightarrow> Rejected \<notin> set pre \<Longrightarrow> length pre < length ws \<Longrightarrow>
     deliver k ws =
       Inl (Return (- 1)
         \<lparr>calls = calls k @ zip (take (length pre) ws) pre @ [(ws ! length pre, Rejected)],
          script = rest\<rparr>)"
proof (induction ws arbitrary: k pre)
  case Nil
  then show ?case by simp
next
  case (Cons w ws)
  show ?case
  proof (cases pre)
    case Nil
    with Cons.prems show ?thesis by (simp add: write_fd_def)
  next
    case (Cons a pre')
    with Cons.prems have a: "a \<noteq> Rejected" and r: "Rejected \<notin> set pre'"
      and l: "length pre' < length ws" by auto
    let ?k = "\<lparr>calls = calls k @ [(w, a)], script = pre' @ Rejected # rest\<rparr>"
    have w: "write_fd k w = (write_result a w, ?k)"
      using Cons.prems(1) Cons by (simp add: write_fd_def)
    have n: "write_result a w \<noteq> - 1" using a by (cases a) auto
    have "script ?k = pre' @ Rejected # rest" by simp
    from Cons.IH [OF this r l] w n Cons show ?thesis by simp
  qed
qed

lemma sink_bytes_accepted:
  "sink_bytes \<lparr>calls = map (\<lambda>w. (w, Accepted)) ws, script = sc\<rparr> = concat ws"
  by (induction ws) (auto simp: sink_bytes_def)

lemma find_duplicates_accepting:
  assumes "cstring m \<noteq> []"
  shows "find_duplicates junk (Some m) (new_sink []) =
       Return 0 \<lparr>calls = map (\<lambda>w. (w, Accepted)) (chunks (second_occurrences (cstring m))),
                 script = []\<rparr>"
proof -
  have "deliver (new_sink []) (chunks (second_occurrences (cstring m))) =
      Inr \<lparr>calls = map (\<lambda>w. (w, Accepted)) (chunks (second_occurrences (cstring m))), script = []\<rparr>"
    using deliver_accepting [of "new_sink []"] by (simp add: new_sink_def)
  with find_duplicates_chunks [OF assms, of junk "new_sink []"] show ?thesis
    by simp
qed

lemma second_occurrences_Nil: "second_occurrences [] = []"
  by (simp add: second_occurrences_def)

lemma in_second_occurrences:
  "x \<in> set (second_occurrences s) \<longleftrightarrow> printable x \<and> 2 \<le> count_list s x"
proof (induction s rule: rev_induct)
  case Nil
  then show ?case by (simp add: second_occurrences_Nil)
next
  case (snoc c s)
  have "x \<in> set (second_occurrences (s @ [c])) \<longleftrightarrow>
      x \<in> set (second_occurrences s) \<or> (x = c \<and> printable c \<and> count_list s c = 1)"
    by (auto simp: second_occurrences_snoc)
  also have "\<dots> \<longleftrightarrow> (printable x \<and> 2 \<le> count_list s x) \<or> (x = c \<and> printable c \<and> count_list s c = 1)"
    using snoc by simp
  also have "\<dots> \<longleftrightarrow> printable x \<and> 2 \<le> count_list (s @ [c]) x"
    by (cases "x = c") auto
  finally show ?case .
qed

lemma set_second_occurrences:
  "set (second_occurrences s) = {c. printable c \<and> 2 \<le> count_list s c}"
  using in_second_occurrences by blast

lemma distinct_second_occurrences: "distinct (second_occurrences s)"
proof (induction s rule: rev_induct)
  case Nil
  then show ?case by (simp add: second_occurrences_Nil)
next
  case (snoc c s)
  show ?case
  proof (cases "printable c \<and> count_list s c = 1")
    case True
    then have "c \<notin> set (second_occurrences s)"
      by (simp add: in_second_occurrences)
    with snoc True show ?thesis
      by (simp add: second_occurrences_snoc)
  next
    case False
    then have "second_occurrences (s @ [c]) = second_occurrences s"
      by (auto simp: second_occurrences_snoc)
    with snoc show ?thesis by simp
  qed
qed

section \<open>The whole alphabet, doubled\<close>

lemma second_occurrences_doubled:
  "distinct xs \<Longrightarrow> \<forall>x\<in>set xs. printable x \<Longrightarrow>
     second_occurrences (concat (map (\<lambda>x. [x, x]) xs)) = xs"
proof (induction xs rule: rev_induct)
  case Nil
  then show ?case by (simp add: second_occurrences_Nil)
next
  case (snoc x xs)
  let ?p = "concat (map (\<lambda>x. [x, x]) xs)"
  from snoc.prems have x: "x \<notin> set xs" "printable x" by auto
  then have c: "count_list ?p x = 0"
    by (auto simp: count_list_0_iff)
  from snoc have ih: "second_occurrences ?p = xs" by simp
  have "second_occurrences ((?p @ [x]) @ [x]) = xs @ [x]"
    using x c ih by (simp only: second_occurrences_snoc [of "?p @ [x]" x]
        second_occurrences_snoc [of ?p x]) simp
  then show ?case by simp
qed

lemma alphabet_distinct: "distinct alphabet"
  by code_simp

lemma alphabet_printable: "\<forall>x\<in>set alphabet. printable x"
  by code_simp

lemma alphabet_chunks: "map length (chunks alphabet) = [254, 32]"
  by code_simp

lemma all_doubled_not_empty: "all_doubled \<noteq> []"
  by code_simp

lemma distinct_count: "distinct xs \<Longrightarrow> x \<in> set xs \<Longrightarrow> count_list xs x = 1"
  by (induction xs) auto

section \<open>Characters outside the alphabet\<close>
lemma count_list_filter: "count_list (filter P s) c = (if P c then count_list s c else 0)"
  by (induction s) auto

lemma second_occurrences_filter:
  "second_occurrences (filter printable s) = second_occurrences s"
proof (induction s rule: rev_induct)
  case Nil
  then show ?case by simp
next
  case (snoc c s)
  show ?case
  proof (cases "printable c")
    case True
    with snoc show ?thesis
      by (simp add: second_occurrences_snoc count_list_filter)
  next
    case False
    with snoc show ?thesis
      by (simp add: second_occurrences_snoc)
  qed
qed

lemma cstring_id: "0 \<notin> set s \<Longrightarrow> cstring s = s"
  by (auto simp: cstring_def takeWhile_eq_all_conv)

lemma cstring_filter: "cstring (filter printable s) = filter printable s"
  by (rule cstring_id) (simp add: printable_def)

lemma loop_body_skip: "\<not> printable c \<Longrightarrow> loop_body f c = Inr f"
  by (auto simp: loop_body_def printable_def)

lemma filtered_same:
  assumes "filter printable (cstring m) \<noteq> []"
  shows "find_duplicates junk (Some (filter printable (cstring m))) k =
         find_duplicates junk (Some m) k"
proof -
  from assms have ne: "cstring m \<noteq> []" by auto
  from assms have ne': "cstring (filter printable (cstring m)) \<noteq> []"
    by (simp add: cstring_filter)
  show ?thesis
    by (simp only: find_duplicates_chunks [OF ne] find_duplicates_chunks [OF ne']
        cstring_filter second_occurrences_filter)
qed

section \<open>Sinks that reject a write\<close>

lemma find_duplicates_reference:
  "find_duplicates junk str (new_sink []) =
     Return (status str) \<lparr>calls = map (\<lambda>w. (w, Accepted)) (requests str), script = []\<rparr>"
proof -
  have "deliver (new_sink []) (requests str) =
      Inr \<lparr>calls = map (\<lambda>w. (w, Accepted)) (requests str), script = []\<rparr>"
    using deliver_accepting [of "new_sink []"] by (simp add: new_sink_def)
  then show ?thesis
    by (simp add: find_duplicates_requests [of junk str "new_sink []"])
qed

lemma deliver_Inl: "deliver k ws = Inl e \<Longrightarrow> e \<noteq> OutOfBounds"
  by (induction ws arbitrary: k) (auto split: prod.splits if_splits)

lemma loop_head_scanned: "loop_head junk k f \<Longrightarrow> \<exists>p. scanned k p f"
proof (induction rule: loop_head.induct)
  case (enter f)
  with entry_scanned [of junk k] show ?case by auto
next
  case (iterate f c g)
  then obtain p where "scanned k p f" by blast
  from loop_body_scanned [OF this, of c] iterate.hyps(3) show ?case by auto
qed

section \<open>The tracker invariant\<close>

lemma nibbles_ok_iff: "nibbles_ok b \<longleftrightarrow> (\<forall>n<4. bit b (n + 4) \<longrightarrow> bit b n)"
proof
  have m: "(0x0F :: byte) = mask 4" by (simp add: mask_eq_exp_minus_1)
  {
    assume "nibbles_ok b"
    then have e: "drop_bit 4 b AND (b AND mask 4) = drop_bit 4 b"
      by (simp only: nibbles_ok_def m)
    show "\<forall>n<4. bit b (n + 4) \<longrightarrow> bit b n"
    proof (intro allI impI)
      fix n :: nat assume "n < 4" and "bit b (n + 4)"
      then have "bit (drop_bit 4 b) n" by (simp add: bit_drop_bit_eq add.commute)
      then have "bit (drop_bit 4 b AND (b AND mask 4)) n" by (simp only: e)
      then show "bit b n" by (simp add: bit_and_iff)
    qed
  next
    assume h: "\<forall>n<4. bit b (n + 4) \<longrightarrow> bit b n"
    have "drop_bit 4 b AND (b AND mask 4) = drop_bit 4 b"
    proof (rule bit_eqI)
      fix n
      have "bit b (4 + n) \<Longrightarrow> n < 4"
        using bit_imp_le_length [of b "4 + n"] by simp
      with h show "bit (drop_bit 4 b AND (b AND mask 4)) n = bit (drop_bit 4 b) n"
        by (auto simp: bit_and_iff bit_drop_bit_eq bit_mask_iff add.commute)
    qed
    then show "nibbles_ok b" by (simp only: nibbles_ok_def m)
  }
qed

lemma nibbles_ok_seen: "nibbles_ok b \<Longrightarrow> nibbles_ok (b OR seen_mask c)"
  by (auto simp: nibbles_ok_iff bit_or_seen_mask)

lemma nibbles_ok_duplicate:
  "nibbles_ok b \<Longrightarrow> b AND seen_mask c \<noteq> 0 \<Longrightarrow> nibbles_ok (b OR duplicate_mask c)"
  by (auto simp: nibbles_ok_iff bit_or_duplicate_mask and_seen_mask)

lemma store_result_tracker:
  "store_result b f = Inr g \<Longrightarrow> character_tracker g = character_tracker f"
  by (auto simp: store_result_def split: if_splits)

lemma make_room_tracker:
  "make_room n f = Inr g \<Longrightarrow> character_tracker g = character_tracker f"
  by (auto simp: make_room_def write_out_def and_then_def split: if_splits prod.splits)

lemma emit_tracker:
  assumes "emit c f = Inr g"
  shows "character_tracker g = character_tracker f"
proof -
  from assms obtain f1 f2 f3 where 1: "make_room 3 f = Inr f1"
    and 2: "(if is_first_duplicate f1 = 0
             then and_then (store_result 0x2C f1) (store_result 0x20) else Inr f1) = Inr f2"
    and 3: "store_result c f2 = Inr f3" and 4: "g = f3\<lparr>is_first_duplicate := 0\<rparr>"
    by (auto simp: emit_def and_then_def split: sum.splits)
  from 2 have "character_tracker f2 = character_tracker f1"
    by (auto simp: and_then_def split: if_splits sum.splits dest!: store_result_tracker)
  with 1 3 4 show ?thesis
    by (simp add: make_room_tracker store_result_tracker)
qed

lemma tracker_ok_update:
  "tracker_ok t \<Longrightarrow> nibbles_ok v \<Longrightarrow> tracker_ok (t[i := v])"
  using set_update_subset_insert [of t i v] by (auto simp: tracker_ok_def)

lemma loop_body_tracker_ok:
  assumes "tracker_ok (character_tracker f)" and "loop_body f c = Inr g"
  shows "tracker_ok (character_tracker g)"
proof -
  let ?t = "character_tracker f"
  let ?i = "unat (byte_index c)"
  have i: "?i < length ?t"
    using assms(1) byte_index_bound [of c] by (simp add: tracker_ok_def)
  then have n: "nibbles_ok (?t ! ?i)"
    using assms(1) by (simp add: tracker_ok_def)
  show ?thesis
  proof (cases "32 \<le> c \<and> c \<le> 126")
    case False
    then have "\<not> printable c" by (simp add: printable_def)
    then have "loop_body f c = Inr f" by (rule loop_body_skip)
    with assms show ?thesis by simp
  next
    case range: True
    show ?thesis
    proof (cases "?t ! ?i AND seen_mask c = 0")
      case True
      then have "loop_body f c = Inr (f\<lparr>character_tracker := ?t[?i := ?t ! ?i OR seen_mask c]\<rparr>)"
        using range i by (simp add: loop_body_def)
      with assms n show ?thesis
        by (auto simp: tracker_ok_update nibbles_ok_seen)
    next
      case seen: False
      show ?thesis
      proof (cases "?t ! ?i AND duplicate_mask c = 0")
        case True
        then have "loop_body f c =
            emit c (f\<lparr>character_tracker := ?t[?i := ?t ! ?i OR duplicate_mask c]\<rparr>)"
          using range i seen by (simp add: loop_body_def)
        with assms(2) have "character_tracker g = ?t[?i := ?t ! ?i OR duplicate_mask c]"
          using emit_tracker [of c "f\<lparr>character_tracker := ?t[?i := ?t ! ?i OR duplicate_mask c]\<rparr>" g]
          by simp
        with assms(1) n seen show ?thesis
          by (simp add: tracker_ok_update nibbles_ok_duplicate)
      next
        case False
        then have "loop_body f c = Inr f"
          using range i seen by (simp add: loop_body_def)
        with assms show ?thesis by simp
      qed
    qed
  qed
qed

lemma loop_head_tracker_ok: "loop_head junk k f \<Longrightarrow> tracker_ok (character_tracker f)"
proof (induction rule: loop_head.induct)
  case (enter f)
  have "nibbles_ok 0" by (simp add: nibbles_ok_def)
  with enter show ?case
    by (auto simp: store_result_def entry_frame_def tracker_ok_def split: if_splits)
next
  case (iterate f c g)
  then show ?case using loop_body_tracker_ok by blast
qed

lemma loop_head_scan:
  "loop_head junk k f \<Longrightarrow> scan f cs = Inr g \<Longrightarrow> loop_head junk k g"
proof (induction cs arbitrary: f)
  case Nil
  then show ?case by simp
next
  case (Cons c cs)
  show ?case
  proof (cases "c = 0")
    case True
    with Cons.prems show ?thesis by simp
  next
    case False
    with Cons.prems(2) obtain f' where b: "loop_body f c = Inr f'" and s: "scan f' cs = Inr g"
      by (auto split: sum.splits)
    from Cons.prems(1) False b have "loop_head junk k f'" by (rule loop_head.iterate)
    then show ?thesis using s by (rule Cons.IH)
  qed
qed

lemma frame0_head: "loop_head zeroed (new_sink []) frame0"
  by (rule loop_head.enter)
    (simp add: frame0_def store_result_def entry_frame_def RESULT_BUFFER_SIZE_def)

lemma frame_aa_scan: "scan frame0 [0x61, 0x61] = Inr frame_aa"
proof -
  have "isl (scan frame0 [0x61, 0x61]) = False" by code_simp
  then show ?thesis by (cases "scan frame0 [0x61, 0x61]") (simp_all add: frame_aa_def)
qed

lemma frame_aa_head: "loop_head zeroed (new_sink []) frame_aa"
  using frame0_head frame_aa_scan by (rule loop_head_scan)

lemma make_room_resets:
  "RESULT_BUFFER_SIZE < unat (output_idx f) + n \<Longrightarrow> make_room n f = Inr g \<Longrightarrow> output_idx g = 0"
  by (auto simp: make_room_def and_then_def split: sum.splits)

lemma main_str_run:
  "find_duplicates junk (Some main_str) (new_sink []) =
     Return 0 \<lparr>calls = map (\<lambda>w. (w, Accepted)) (chunks alphabet), script = []\<rparr>"
proof -
  have c: "cstring main_str = all_doubled" by code_simp
  have so: "second_occurrences (cstring main_str) = alphabet"
    unfolding c all_doubled_def
    by (rule second_occurrences_doubled [OF alphabet_distinct alphabet_printable])
  have ne: "cstring main_str \<noteq> []"
    using c all_doubled_not_empty by simp
  show ?thesis
    using find_duplicates_accepting [OF ne, of junk] by (simp only: so)
qed

lemma frame_flushed_room: "make_room 3 frame_full = Inr frame_flushed"
proof -
  have "isl (make_room 3 frame_full) = False" by code_simp
  then show ?thesis by (cases "make_room 3 frame_full") (simp_all add: frame_flushed_def)
qed

section \<open>The claims\<close>

text \<open>
  C1. For a non-empty input string and a sink that takes every write, the function
  returns 0 and the bytes written are the report of the printable characters found at
  the positions of second occurrence, in the order of those positions; each character
  that occurs at least twice is listed, and none is listed twice.
\<close>

theorem report_in_second_occurrence_order:
  assumes "cstring m \<noteq> []"
  shows "(case find_duplicates junk (Some m) (new_sink []) of
            Return r k \<Rightarrow> r = 0 \<and> sink_bytes k = report (second_occurrences (cstring m))
          | OutOfBounds \<Rightarrow> False) \<and>
         distinct (second_occurrences (cstring m)) \<and>
         set (second_occurrences (cstring m)) = {c. printable c \<and> 2 \<le> count_list (cstring m) c}"
  using assms
  by (simp add: find_duplicates_accepting sink_bytes_accepted concat_chunks
      set_second_occurrences distinct_second_occurrences)

theorem report_in_second_occurrence_order_witness:
  "cstring (bytes_of ''aabbcc'') \<noteq> [] \<and>
   (case find_duplicates zeroed (Some (bytes_of ''aabbcc'')) (new_sink []) of
      Return r k \<Rightarrow> r = 0 \<and> sink_bytes k = bytes_of ''{a, b, c}'' @ [0x0A]
    | OutOfBounds \<Rightarrow> False)"
proof -
  have h: "cstring (bytes_of ''aabbcc'') \<noteq> []"
    by (simp add: cstring_def bytes_of_def)
  have e: "report (second_occurrences (cstring (bytes_of ''aabbcc''))) = bytes_of ''{a, b, c}'' @ [0x0A]"
    by code_simp
  from report_in_second_occurrence_order [OF h, of zeroed] e h show ?thesis
    by (simp split: exit.splits)
qed

text \<open>
  C2. For the input made of every character from 32 to 126 twice, in ascending order,
  and a sink that takes every write, the function returns 0 and the bytes written, put
  together, are the report of the 95 characters in ascending order; they reach the sink
  in two writes, of 254 and of 32 bytes. The witness is the array that \<open>main\<close> builds.
\<close>

theorem full_alphabet_report:
  assumes "cstring m = all_doubled"
  shows "case find_duplicates junk (Some m) (new_sink []) of
           Return r k \<Rightarrow>
             r = 0 \<and> sink_bytes k = report alphabet \<and>
             map (\<lambda>c. length (fst c)) (calls k) = [254, 32]
         | OutOfBounds \<Rightarrow> False"
proof -
  let ?k = "\<lparr>calls = map (\<lambda>w. (w, Accepted)) (chunks alphabet), script = []\<rparr>"
  have so: "second_occurrences (cstring m) = alphabet"
    unfolding assms all_doubled_def
    by (rule second_occurrences_doubled [OF alphabet_distinct alphabet_printable])
  have ne: "cstring m \<noteq> []"
    using assms all_doubled_not_empty by simp
  have fd: "find_duplicates junk (Some m) (new_sink []) = Return 0 ?k"
    using find_duplicates_accepting [OF ne, of junk] by (simp only: so)
  have b: "sink_bytes ?k = report alphabet"
    by (simp only: sink_bytes_accepted concat_chunks)
  have l: "map (\<lambda>c. length (fst c)) (map (\<lambda>w. (w, Accepted)) ws) = map length ws"
    for ws :: "byte list list"
    by (induction ws) auto
  have c: "map (\<lambda>c. length (fst c)) (calls ?k) = [254, 32]"
    by (simp only: sink.select_convs l alphabet_chunks)
  show ?thesis
    unfolding fd using b c by simp
qed

theorem full_alphabet_report_witness:
  "cstring main_str = all_doubled \<and>
   (case find_duplicates zeroed (Some main_str) (new_sink []) of
      Return r k \<Rightarrow>
        r = 0 \<and> sink_bytes k = report alphabet \<and>
        map (\<lambda>c. length (fst c)) (calls k) = [254, 32]
    | OutOfBounds \<Rightarrow> False)"
proof -
  have h: "cstring main_str = all_doubled"
    by code_simp
  from full_alphabet_report [OF h, of zeroed] h show ?thesis
    by simp
qed

text \<open>
  C3. For the null pointer and for the empty string the function does not scan: it makes
  one write and returns -1. The write is of 31 bytes: the text, the newline, and the zero
  byte that ends the string literal. The claim expects the 30 bytes of the text and the
  newline only.
\<close>

theorem empty_input_writes_terminator:
  assumes "str = None \<or> cstring (the str) = []"
  shows "find_duplicates junk str (new_sink []) =
     Return (- 1)
       \<lparr>calls = [(bytes_of ''Input string is null or empty'' @ [0x0A, 0x00], Accepted)],
        script = []\<rparr>"
proof -
  from assms have "\<not> valid_input str"
    by (auto simp: valid_input_def)
  moreover have "take 31 (literal diagnostic) = bytes_of ''Input string is null or empty'' @ [0x0A, 0x00]"
    by (simp add: literal_def diagnostic_def bytes_of_def)
  ultimately show ?thesis
    by (simp add: find_duplicates_invalid write_fd_def new_sink_def)
qed

theorem empty_input_writes_terminator_witness:
  "cstring (the (Some [0, 0x61])) = [] \<and>
   find_duplicates zeroed (Some [0, 0x61]) (new_sink []) =
     Return (- 1)
       \<lparr>calls = [(bytes_of ''Input string is null or empty'' @ [0x0A, 0x00], Accepted)],
        script = []\<rparr> \<and>
   sink_bytes \<lparr>calls = [(bytes_of ''Input string is null or empty'' @ [0x0A, 0x00], Accepted)],
        script = []\<rparr> \<noteq> bytes_of ''Input string is null or empty'' @ [0x0A]"
proof -
  have h: "cstring (the (Some [0, 0x61])) = []"
    by (simp add: cstring_def)
  then have "Some [0, 0x61] = None \<or> cstring (the (Some [0, 0x61])) = []" ..
  from empty_input_writes_terminator [OF this, of zeroed] h show ?thesis
    by (simp add: sink_bytes_def)
qed

text \<open>
  C4. For a non-empty input string in which no printable character occurs twice, and a
  sink that takes every write, the function returns 0 after a single write of the three
  bytes \<open>{\<close>, \<open>}\<close> and newline.
\<close>

theorem no_duplicates_report:
  assumes "cstring m \<noteq> []" and "\<forall>c. printable c \<longrightarrow> count_list (cstring m) c \<le> 1"
  shows "find_duplicates junk (Some m) (new_sink []) =
           Return 0 \<lparr>calls = [([0x7B, 0x7D, 0x0A], Accepted)], script = []\<rparr>"
proof -
  have "set (second_occurrences (cstring m)) = {}"
  proof (rule equals0I)
    fix x assume "x \<in> set (second_occurrences (cstring m))"
    then have "printable x" and "2 \<le> count_list (cstring m) x"
      by (simp_all add: in_second_occurrences)
    with assms(2) [rule_format, of x] show False by simp
  qed
  then have "second_occurrences (cstring m) = []" by (simp only: set_empty)
  moreover have "chunks [] = [[0x7B, 0x7D, 0x0A]]"
    by (simp add: chunks_def buffered_Nil RESULT_BUFFER_SIZE_def)
  ultimately show ?thesis
    by (simp add: find_duplicates_accepting [OF assms(1)])
qed

theorem no_duplicates_report_witness:
  "cstring (bytes_of ''abcXYZ'') \<noteq> [] \<and>
   (\<forall>c. count_list (cstring (bytes_of ''abcXYZ'')) c \<le> 1) \<and>
   find_duplicates zeroed (Some (bytes_of ''abcXYZ'')) (new_sink []) =
     Return 0 \<lparr>calls = [(bytes_of ''{}'' @ [0x0A], Accepted)], script = []\<rparr>"
proof -
  have s: "cstring (bytes_of ''abcXYZ'') = [0x61, 0x62, 0x63, 0x58, 0x59, 0x5A]"
    by (simp add: cstring_def bytes_of_def)
  have h1: "cstring (bytes_of ''abcXYZ'') \<noteq> []" by (simp add: s)
  have h2: "\<forall>c. count_list (cstring (bytes_of ''abcXYZ'')) c \<le> 1" by (simp add: s)
  then have h3: "\<forall>c. printable c \<longrightarrow> count_list (cstring (bytes_of ''abcXYZ'')) c \<le> 1"
    by blast
  from no_duplicates_report [OF h1 h3, of zeroed] h1 h2 show ?thesis
    by (simp add: bytes_of_def)
qed

text \<open>
  C5. A printable character that occurs three times or more in the input is an entry of
  the report once and only once; the input \<open>aaaa\<close> gives \<open>{a}\<close> and a newline.
\<close>

theorem repeated_symbol_reported_once:
  assumes "printable c" and "3 \<le> count_list (cstring m) c"
  shows "case find_duplicates junk (Some m) (new_sink []) of
           Return r k \<Rightarrow>
             r = 0 \<and> sink_bytes k = report (second_occurrences (cstring m)) \<and>
             count_list (second_occurrences (cstring m)) c = 1
         | OutOfBounds \<Rightarrow> False"
proof -
  from assms(2) have ne: "cstring m \<noteq> []" by auto
  from assms have "c \<in> set (second_occurrences (cstring m))"
    by (simp add: in_second_occurrences)
  then have "count_list (second_occurrences (cstring m)) c = 1"
    using distinct_second_occurrences [of "cstring m"]
    by (simp add: distinct_count)
  then show ?thesis
    by (simp add: find_duplicates_accepting [OF ne] sink_bytes_accepted concat_chunks)
qed

theorem repeated_symbol_reported_once_witness:
  "printable 0x61 \<and> 3 \<le> count_list (cstring (bytes_of ''aaaa'')) 0x61 \<and>
   (case find_duplicates zeroed (Some (bytes_of ''aaaa'')) (new_sink []) of
      Return r k \<Rightarrow> r = 0 \<and> sink_bytes k = bytes_of ''{a}'' @ [0x0A]
    | OutOfBounds \<Rightarrow> False)"
proof -
  have h1: "printable 0x61" by (simp add: printable_def)
  have h2: "3 \<le> count_list (cstring (bytes_of ''aaaa'')) 0x61"
    by (simp add: cstring_def bytes_of_def)
  have e: "report (second_occurrences (cstring (bytes_of ''aaaa''))) = bytes_of ''{a}'' @ [0x0A]"
    by code_simp
  from repeated_symbol_reported_once [OF h1 h2, of zeroed] e h1 h2 show ?thesis
    by (simp split: exit.splits)
qed

text \<open>
  C6, as amended. A character outside 32..126 leaves the whole frame as it is: tracker,
  buffer and sink. The entries of the report are all printable. Taking every such
  character out of the input changes neither what reaches the sink nor the value
  returned, as long as a printable character is left; for an input made of such
  characters only the claim as stated fails, as the counterexample shows: the input
  is reported as \<open>{}\<close>, the empty string it reduces to is refused.
\<close>

theorem nonprintable_ignored:
  "(\<not> printable c \<longrightarrow> loop_body f c = Inr f) \<and>
   (filter printable (cstring m) \<noteq> [] \<longrightarrow>
      find_duplicates junk (Some (filter printable (cstring m))) k =
      find_duplicates junk (Some m) k) \<and>
   (cstring m \<noteq> [] \<longrightarrow>
      (case find_duplicates junk (Some m) (new_sink []) of
         Return r k' \<Rightarrow>
           r = 0 \<and> sink_bytes k' = report (second_occurrences (cstring m)) \<and>
           (\<forall>d\<in>set (second_occurrences (cstring m)). printable d)
       | OutOfBounds \<Rightarrow> False))"
  by (simp add: loop_body_skip filtered_same find_duplicates_accepting sink_bytes_accepted
      concat_chunks in_second_occurrences)

theorem nonprintable_ignored_witness:
  "\<not> printable 0x01 \<and>
   loop_body (entry_frame zeroed (new_sink [])) 0x01 = Inr (entry_frame zeroed (new_sink [])) \<and>
   filter printable (cstring [0x01, 0x61, 0x01, 0x61, 0x80]) = [0x61, 0x61] \<and>
   find_duplicates zeroed (Some [0x61, 0x61]) (new_sink []) =
     find_duplicates zeroed (Some [0x01, 0x61, 0x01, 0x61, 0x80]) (new_sink []) \<and>
   (case find_duplicates zeroed (Some [0x01, 0x61, 0x01, 0x61, 0x80]) (new_sink []) of
      Return r k' \<Rightarrow> r = 0 \<and> sink_bytes k' = bytes_of ''{a}'' @ [0x0A]
    | OutOfBounds \<Rightarrow> False)"
proof -
  have h1: "\<not> printable 0x01" by code_simp
  have h2: "filter printable (cstring [0x01, 0x61, 0x01, 0x61, 0x80]) = [0x61, 0x61]"
    by code_simp
  have h3: "cstring [0x01, 0x61, 0x01, 0x61, 0x80 :: byte] \<noteq> []"
    by (simp add: cstring_def)
  have e: "report (second_occurrences (cstring [0x01, 0x61, 0x01, 0x61, 0x80])) = bytes_of ''{a}'' @ [0x0A]"
    by code_simp
  from nonprintable_ignored [of "0x01" "entry_frame zeroed (new_sink [])"
      "[0x01, 0x61, 0x01, 0x61, 0x80]" zeroed "new_sink []"] h1 h2 h3 e
  show ?thesis
    by (simp split: exit.splits)
qed

theorem removing_nonprintables_counterexample:
  "find_duplicates zeroed (Some [0x01, 0x01]) (new_sink []) =
     Return 0 \<lparr>calls = [([0x7B, 0x7D, 0x0A], Accepted)], script = []\<rparr> \<and>
   find_duplicates zeroed (Some (filter printable [0x01, 0x01])) (new_sink []) =
     Return (- 1)
       \<lparr>calls = [(bytes_of ''Input string is null or empty'' @ [0x0A, 0x00], Accepted)],
        script = []\<rparr>"
proof -
  have ne: "cstring [0x01, 0x01 :: byte] \<noteq> []" by (simp add: cstring_def)
  have "second_occurrences (cstring [0x01, 0x01]) = []" by code_simp
  moreover have "chunks [] = [[0x7B, 0x7D, 0x0A]]"
    by (simp add: chunks_def buffered_Nil RESULT_BUFFER_SIZE_def)
  ultimately have a: "find_duplicates zeroed (Some [0x01, 0x01]) (new_sink []) =
     Return 0 \<lparr>calls = [([0x7B, 0x7D, 0x0A], Accepted)], script = []\<rparr>"
    by (simp add: find_duplicates_accepting [OF ne])
  have f: "filter printable [0x01, 0x01] = []" by code_simp
  have "\<not> valid_input (Some [])" by (simp add: valid_input_def cstring_def)
  moreover have "take 31 (literal diagnostic) = bytes_of ''Input string is null or empty'' @ [0x0A, 0x00]"
    by (simp add: literal_def diagnostic_def bytes_of_def)
  ultimately have b: "find_duplicates zeroed (Some []) (new_sink []) =
     Return (- 1)
       \<lparr>calls = [(bytes_of ''Input string is null or empty'' @ [0x0A, 0x00], Accepted)],
        script = []\<rparr>"
    by (simp add: find_duplicates_invalid write_fd_def new_sink_def)
  from a b f show ?thesis by simp
qed

text \<open>
  C7. Take the run on a sink that accepts everything as the reference, and let the sink
  reject one of the writes of that run, after any answers other than a rejection to the
  writes before it. The function then returns -1; the writes it has made are the
  reference ones up to and including the rejected one, each offered once; the answers
  the sink had in store for later writes are left unused.
\<close>

theorem rejected_write_aborts:
  assumes "find_duplicates junk str (new_sink []) = Return r a"
    and "length pre < length (calls a)"
    and "Rejected \<notin> set pre"
  shows "find_duplicates junk str (new_sink (pre @ Rejected # rest)) =
           Return (- 1)
             \<lparr>calls = zip (map fst (take (length pre) (calls a))) pre @
                        [(fst (calls a ! length pre), Rejected)],
              script = rest\<rparr>"
proof -
  let ?ws = "requests str"
  from assms(1) have a: "calls a = map (\<lambda>w. (w, Accepted)) ?ws"
    by (auto simp: find_duplicates_reference)
  with assms(2) have l: "length pre < length ?ws" by simp
  have s: "script (new_sink (pre @ Rejected # rest)) = pre @ Rejected # rest"
    by (simp add: new_sink_def)
  have t: "map fst (take (length pre) (calls a)) = take (length pre) ?ws"
    by (simp add: a take_map comp_def)
  have n: "fst (calls a ! length pre) = ?ws ! length pre"
    using l by (simp add: a)
  have "deliver (new_sink (pre @ Rejected # rest)) ?ws =
      Inl (Return (- 1)
        \<lparr>calls = zip (take (length pre) ?ws) pre @ [(?ws ! length pre, Rejected)],
         script = rest\<rparr>)"
    using deliver_rejected [OF s assms(3) l] by (simp add: new_sink_def)
  then show ?thesis
    by (simp add: find_duplicates_requests [of junk str "new_sink (pre @ Rejected # rest)"] t n)
qed

theorem rejected_write_aborts_witness:
  "find_duplicates zeroed (Some main_str) (new_sink []) =
     Return 0 \<lparr>calls = map (\<lambda>w. (w, Accepted)) (chunks alphabet), script = []\<rparr> \<and>
   length [Short 200] < length (map (\<lambda>w. (w, Accepted :: answer)) (chunks alphabet)) \<and>
   Rejected \<notin> set [Short 200] \<and>
   find_duplicates zeroed (Some main_str) (new_sink [Short 200, Rejected, Accepted]) =
     Return (- 1)
       \<lparr>calls = [(chunks alphabet ! 0, Short 200), (chunks alphabet ! 1, Rejected)],
        script = [Accepted]\<rparr>"
proof -
  have "length (chunks alphabet) = 2"
    using alphabet_chunks by (metis length_map list.size(3,4) One_nat_def Suc_1 add.commute plus_1_eq_Suc)
  then obtain c1 c2 where c: "chunks alphabet = [c1, c2]"
    by (cases "chunks alphabet"; cases "tl (chunks alphabet)") auto
  have l: "length [Short 200] < length (calls \<lparr>calls = map (\<lambda>w. (w, Accepted)) (chunks alphabet), script = []\<rparr>)"
    by (simp add: c)
  have r: "Rejected \<notin> set [Short 200]" by simp
  from rejected_write_aborts [OF main_str_run l r, of zeroed "[Accepted]"] main_str_run [of zeroed]
  show ?thesis by (simp add: c)
qed

text \<open>
  C8. The run depends on the input and on the sink only: two calls on the same input
  and the same sink, whatever their stacks held in \<open>result\<close>, return the same value and
  leave the same sequence of writes.
\<close>

theorem same_input_same_run:
  "find_duplicates junk str k = find_duplicates junk' str k"
  by (simp only: find_duplicates_requests)

theorem same_input_same_run_witness:
  "find_duplicates zeroed (Some (bytes_of ''aabbcc'')) (new_sink [Short 3]) =
   find_duplicates stale (Some (bytes_of ''aabbcc'')) (new_sink [Short 3])"
  by (rule same_input_same_run)

text \<open>
  C9. For a character from 32 to 126 the tracker index lies between 8 and 31, inside
  the 64 bytes of the tracker; at the head of the loop both arrays have their declared
  sizes and \<open>output_idx\<close> is below \<open>RESULT_BUFFER_SIZE\<close>; when fewer than \<open>n\<close> bytes are
  free, making room for \<open>n\<close> leaves \<open>output_idx\<close> at 0; and no run of the function, on any
  input and any sink, makes an access outside an array.
\<close>

theorem accesses_in_bounds:
  "(printable c \<longrightarrow>
      8 \<le> unat (byte_index c) \<and> unat (byte_index c) \<le> 31 \<and>
      unat (byte_index c) < length (character_tracker (entry_frame junk k))) \<and>
   (loop_head junk k f \<longrightarrow>
      length (character_tracker f) = 64 \<and> length (result f) = RESULT_BUFFER_SIZE \<and>
      unat (output_idx f) < RESULT_BUFFER_SIZE) \<and>
   (RESULT_BUFFER_SIZE < unat (output_idx f') + n \<longrightarrow> make_room n f' = Inr g \<longrightarrow>
      output_idx g = 0) \<and>
   find_duplicates junk str k \<noteq> OutOfBounds"
proof (intro conjI impI)
  assume "printable c"
  then show "8 \<le> unat (byte_index c)" and "unat (byte_index c) \<le> 31"
    using byte_index_printable [of c] by (simp_all add: printable_def)
  show "unat (byte_index c) < length (character_tracker (entry_frame junk k))"
    using byte_index_bound [of c] by (simp add: entry_frame_def)
next
  assume "loop_head junk k f"
  then obtain p where s: "scanned k p f" using loop_head_scanned by blast
  obtain first ws buf where b: "buffered (second_occurrences p) = (first, ws, buf)"
    by (cases "buffered (second_occurrences p)") auto
  from s b buffered_facts [OF b]
  show "length (character_tracker f) = 64" and "length (result f) = RESULT_BUFFER_SIZE"
    and "unat (output_idx f) < RESULT_BUFFER_SIZE"
    by (simp_all add: scanned_def tracks_def buffer_holds_def RESULT_BUFFER_SIZE_def)
next
  assume "RESULT_BUFFER_SIZE < unat (output_idx f') + n" and "make_room n f' = Inr g"
  then show "output_idx g = 0" by (rule make_room_resets)
next
  show "find_duplicates junk str k \<noteq> OutOfBounds"
    using deliver_Inl [of k "requests str"]
    by (simp add: find_duplicates_requests [of junk str k] split: sum.splits)
qed

theorem accesses_in_bounds_witness:
  "printable 0x61 \<and> 8 \<le> unat (byte_index 0x61) \<and> unat (byte_index 0x61) \<le> 31 \<and>
   loop_head zeroed (new_sink []) frame_aa \<and>
   unat (output_idx frame_aa) < RESULT_BUFFER_SIZE \<and>
   RESULT_BUFFER_SIZE < unat (output_idx frame_full) + 3 \<and>
   make_room 3 frame_full = Inr frame_flushed \<and> output_idx frame_flushed = 0 \<and>
   find_duplicates zeroed (Some (bytes_of ''aabbcc'')) (new_sink []) \<noteq> OutOfBounds"
proof -
  have h: "printable 0x61" by code_simp
  have i: "RESULT_BUFFER_SIZE < unat (output_idx frame_full) + 3"
    by (simp add: frame_full_def RESULT_BUFFER_SIZE_def)
  from accesses_in_bounds [of "0x61" zeroed "new_sink []" frame_aa frame_full 3 frame_flushed
      "Some (bytes_of ''aabbcc'')"]
    h frame_aa_head i frame_flushed_room
  show ?thesis by simp
qed

text \<open>
  C10. Every time the head of the loop is reached, every byte of the tracker has its
  upper nibble included in its lower nibble, and so a character whose duplicate bit is
  set has its seen bit set too.
\<close>

theorem emitted_bit_needs_seen_bit:
  assumes "loop_head junk k f"
  shows "(\<forall>b\<in>set (character_tracker f). nibbles_ok b) \<and>
         (\<forall>c. character_tracker f ! unat (byte_index c) AND duplicate_mask c \<noteq> 0 \<longrightarrow>
              character_tracker f ! unat (byte_index c) AND seen_mask c \<noteq> 0)"
proof -
  from loop_head_tracker_ok [OF assms]
  have l: "length (character_tracker f) = 64" and n: "\<forall>b\<in>set (character_tracker f). nibbles_ok b"
    by (simp_all add: tracker_ok_def)
  have "character_tracker f ! unat (byte_index c) AND seen_mask c \<noteq> 0"
    if d: "character_tracker f ! unat (byte_index c) AND duplicate_mask c \<noteq> 0" for c
  proof -
    have "character_tracker f ! unat (byte_index c) \<in> set (character_tracker f)"
      using l byte_index_bound [of c] by simp
    with n have "nibbles_ok (character_tracker f ! unat (byte_index c))" by blast
    moreover have "unat c mod 4 < 4" by simp
    ultimately show ?thesis
      using d by (simp add: nibbles_ok_iff and_seen_mask and_duplicate_mask)
  qed
  with n show ?thesis by blast
qed

theorem emitted_bit_needs_seen_bit_witness:
  "loop_head zeroed (new_sink []) frame_aa \<and>
   character_tracker frame_aa ! unat (byte_index 0x61) = 0x22 \<and>
   nibbles_ok 0x22 \<and> (0x22 :: byte) AND seen_mask 0x61 \<noteq> 0"
proof -
  have t: "character_tracker frame_aa ! unat (byte_index 0x61) = 0x22" by code_simp
  have d: "character_tracker frame_aa ! unat (byte_index 0x61) AND duplicate_mask 0x61 \<noteq> 0"
    by code_simp
  have m: "character_tracker frame_aa ! unat (byte_index 0x61) \<in> set (character_tracker frame_aa)"
    by code_simp
  note inv = emitted_bit_needs_seen_bit [OF frame_aa_head]
  from inv m have "nibbles_ok (character_tracker frame_aa ! unat (byte_index 0x61))"
    by blast
  moreover from inv d
  have "character_tracker frame_aa ! unat (byte_index 0x61) AND seen_mask 0x61 \<noteq> 0"
    by blast
  ultimately show ?thesis
    using frame_aa_head t by (simp only: simp_thms)
qed

end
